theory Spec2Isabelle
  imports Main
begin

section \<open>The schema registry of \<^verbatim>\<open>lib/Compiler.js\<close>\<close>

text \<open>
  The module keeps three pieces of mutable state: the catalog \<^verbatim>\<open>this.schemas\<close>, the
  ledger of deferred extensions \<^verbatim>\<open>this.schemaExtensions\<close> and the validation engine
  \<^verbatim>\<open>this.validator\<close>. Every method becomes a function that takes the state and returns
  the new one; a thrown error is returned next to the state the throw leaves behind,
  since JavaScript does not roll mutations back. Calls to \<^verbatim>\<open>this.log\<close> are recorded in
  the state, in order. The concurrent discovery pass is given twice: as a function for
  one schedule of the event loop, and as a step relation for all of them.

  The two plain objects are maps from property key to value. A lookup such as
  \<^verbatim>\<open>this.schemas[k]\<close> is the map lookup: schema units and arrays are objects, hence
  truthy, so the truthiness tests of the source are tests for presence. Keys inherited
  from \<^verbatim>\<open>Object.prototype\<close> are outside the model.
\<close>

subsection \<open>Values, errors and the log\<close>

text \<open>
  A JavaScript argument, as far as \<^verbatim>\<open>_.isString\<close> tells values apart; \<open>JObj\<close> is any object
  that is not a string.
\<close>

datatype jsval = JUndefined | JNull | JBool bool | JNum int | JStr string | JObj

fun isString :: "jsval \<Rightarrow> bool" where
  "isString (JStr s) = True"
| "isString v = False"

text \<open>
  The host's error kinds with the data \<^verbatim>\<open>setData\<close> attaches. \<open>LOAD_ERROR\<close> is what
  a unit's \<^verbatim>\<open>load\<close> rejects with, \<open>TYPE_ERROR\<close> the engine's own error on a property
  read of \<^verbatim>\<open>undefined\<close>, \<open>HOST_ERROR\<close> any failure handed over by a collaborator
  (the glob callback).
\<close>

datatype error =
    INVALID_PARAMS "string list"
  | SCHEMA_EXISTS string jsval
  | NOT_FOUND string string
  | LOAD_ERROR string
  | TYPE_ERROR
  | HOST_ERROR string

datatype level = Debug | Warn | Error

datatype logitem = Text string | Value jsval | Reason error

type_synonym logentry = "level \<times> logitem list"

subsection \<open>Schema documents and schema units\<close>

text \<open>
  Of a schema document the registry reads the identity and \<^verbatim>\<open>$patch\<close>. The source
  tests \<^verbatim>\<open>schema.raw.$patch\<close> for truthiness and then reads
  \<^verbatim>\<open>schema.raw.$patch?.source?.$ref\<close>, which is \<^verbatim>\<open>undefined\<close> when the chain breaks.
\<close>

datatype patchdecl = PatchRef string | PatchNoRef

record document =
  docName :: string
  patch :: "patchdecl option"
  content :: nat

text \<open>
  A value used as a property key is converted to a string; \<^verbatim>\<open>undefined\<close> becomes the
  key \<^verbatim>\<open>"undefined"\<close>.
\<close>

fun refKey :: "patchdecl \<Rightarrow> string" where
  "refKey (PatchRef s) = s"
| "refKey PatchNoRef = ''undefined''"

text \<open>
  Modelled from the spec: the class \<^verbatim>\<open>JsonSchema\<close> (\<^verbatim>\<open>./JsonSchema.js\<close>) is not among
  the sources. A unit has a name, the raw document and the ordered set of the names
  that extend it. The name is derived from the document, so it is known once \<^verbatim>\<open>load\<close>
  has run; the \<open>name\<close> field holds the property key that \<^verbatim>\<open>schema.name\<close> denotes, and
  what the constructor leaves there is a parameter of the model (\<open>ctorName\<close> below;
  \<^verbatim>\<open>"undefined"\<close> for a field that is not set yet). The compiled-validator cache is
  internal to \<^verbatim>\<open>build\<close> and is not modelled.
\<close>

record JsonSchema =
  name :: string
  filePath :: string
  raw :: "document option"
  extensions :: "string list"

text \<open>
  Modelled from the spec: \<^verbatim>\<open>addExtension\<close> of the missing class appends the name to
  the ordered extension set if it is not already present.
\<close>

definition addExtension :: "JsonSchema \<Rightarrow> string \<Rightarrow> JsonSchema" where
  "addExtension schema extSchemaName =
     (if extSchemaName \<in> set (extensions schema) then schema
      else schema\<lparr>extensions := extensions schema @ [extSchemaName]\<rparr>)"

text \<open>
  The collaborators of the registry: the component roots of \<^verbatim>\<open>this.app.dependencies\<close>,
  the glob of one root, the file system as \<^verbatim>\<open>load\<close> sees it, and the name a freshly
  constructed unit has for a file path.
\<close>

record host =
  dependencies :: "string list"
  glob :: "string \<Rightarrow> error + string list"
  readSchema :: "string \<Rightarrow> error + document"
  ctorName :: "string \<Rightarrow> string"

text \<open>
  Modelled from the spec: the constructor and \<^verbatim>\<open>load\<close> of the missing class. \<^verbatim>\<open>load\<close>
  parses the document from the unit's file path, fails if it cannot be read or parsed,
  and otherwise records the document and the name derived from it.
\<close>

definition newJsonSchema :: "host \<Rightarrow> string \<Rightarrow> JsonSchema" where
  "newJsonSchema h fp = \<lparr>name = ctorName h fp, filePath = fp, raw = None, extensions = []\<rparr>"

definition load :: "host \<Rightarrow> JsonSchema \<Rightarrow> error + JsonSchema" where
  "load h schema =
     (case readSchema h (filePath schema) of
        Inl e \<Rightarrow> Inl e
      | Inr d \<Rightarrow> Inr (schema\<lparr>name := docName d, raw := Some d\<rparr>))"

subsection \<open>The module state\<close>

text \<open>
  A string format is a \<^verbatim>\<open>RegExp\<close> (source and flags) or, from configuration, a pattern
  string. \<open>patternText\<close> is what a template literal prints for it.
\<close>

datatype pattern = RegExp string string | PatternString string


record keywordDef =
  keyword :: string
  code :: nat

record JsonSchemaModule =
  schemas :: "string \<rightharpoonup> JsonSchema"
  schemaExtensions :: "string \<rightharpoonup> string list"
  formats :: "string \<rightharpoonup> pattern"
  keywordTable :: "keywordDef list"
  logs :: "logentry list"

definition log :: "JsonSchemaModule \<Rightarrow> level \<Rightarrow> logitem list \<Rightarrow> JsonSchemaModule" where
  "log st lvl items = st\<lparr>logs := logs st @ [(lvl, items)]\<rparr>"

text \<open>The state \<^verbatim>\<open>init\<close> sets up before it installs the built-in formats.\<close>

definition init :: JsonSchemaModule where
  "init = \<lparr>schemas = Map.empty, schemaExtensions = Map.empty, formats = Map.empty,
            keywordTable = [], logs = []\<rparr>"

subsection \<open>String formats and keywords\<close>







subsection \<open>Registration\<close>

record options =
  replace :: bool

definition pending :: "JsonSchemaModule \<Rightarrow> string \<Rightarrow> string list" where
  "pending st k = (case schemaExtensions st k of None \<Rightarrow> [] | Some xs \<Rightarrow> xs)"

definition deregisterSchema :: "JsonSchemaModule \<Rightarrow> string \<Rightarrow> JsonSchemaModule" where
  "deregisterSchema st n =
     log (if n \<in> dom (schemas st) then st\<lparr>schemas := (schemas st)(n := None)\<rparr> else st)
         Debug [Text ''DEREGISTER_SCHEMA'', Text n]"

text \<open>
  \<^verbatim>\<open>createSchema\<close> constructs the unit, hands it the extensions pending under the name
  the unit has at that moment, deletes that ledger entry and returns the promise of
  \<^verbatim>\<open>schema.load()\<close>. The outcome of the promise is fixed by the file, so the model
  returns it at once; the caller decides when to look at it. The options are handed to
  the constructor and play no part in what \<^verbatim>\<open>createSchema\<close> itself does.
\<close>

definition createSchema ::
  "host \<Rightarrow> JsonSchemaModule \<Rightarrow> string \<Rightarrow> options \<Rightarrow> JsonSchemaModule \<times> (error + JsonSchema)" where
  "createSchema h st fp opts =
     (let schema = newJsonSchema h fp;
          schema1 = foldl addExtension schema (pending st (name schema));
          st1 = st\<lparr>schemaExtensions := (schemaExtensions st)(name schema := None)\<rparr>
      in (st1, load h schema1))"

definition extendSchema :: "JsonSchemaModule \<Rightarrow> string \<Rightarrow> string \<Rightarrow> JsonSchemaModule" where
  "extendSchema st baseSchemaName extSchemaName =
     log (case schemas st baseSchemaName of
            Some baseSchema \<Rightarrow>
              st\<lparr>schemas := (schemas st)(baseSchemaName \<mapsto> addExtension baseSchema extSchemaName)\<rparr>
          | None \<Rightarrow>
              st\<lparr>schemaExtensions :=
                    (schemaExtensions st)(baseSchemaName \<mapsto> pending st baseSchemaName @ [extSchemaName])\<rparr>)
         Debug [Text ''EXTEND_SCHEMA'', Text baseSchemaName, Text extSchemaName]"

text \<open>
  \<^verbatim>\<open>registerSchema\<close> is an async function with one \<^verbatim>\<open>await\<close>. Up to the await it checks
  the argument and calls \<^verbatim>\<open>createSchema\<close> (\<open>registerSchema_start\<close>); once the load has
  settled it runs lines 105 to 113 without further interruption
  (\<open>registerSchema_resume\<close>). After line 109 the local \<^verbatim>\<open>schema\<close> and the catalog entry
  are the same object, so the later mutations are written to the catalog entry.
\<close>

definition registerSchema_start ::
  "host \<Rightarrow> JsonSchemaModule \<Rightarrow> jsval \<Rightarrow> options \<Rightarrow> JsonSchemaModule \<times> (error + JsonSchema)" where
  "registerSchema_start h st fileArg opts =
     (case fileArg of
        JStr fp \<Rightarrow> createSchema h st fp opts
      | _ \<Rightarrow> (st, Inl (INVALID_PARAMS [''filePath''])))"

definition applyPending :: "JsonSchemaModule \<Rightarrow> string \<Rightarrow> JsonSchemaModule" where
  "applyPending st n =
     (case schemas st n of
        None \<Rightarrow> st
      | Some schema \<Rightarrow> st\<lparr>schemas := (schemas st)(n \<mapsto> foldl addExtension schema (pending st n))\<rparr>)"

definition registerSchema_resume ::
  "JsonSchemaModule \<Rightarrow> jsval \<Rightarrow> options \<Rightarrow> JsonSchema \<Rightarrow> JsonSchemaModule \<times> error option" where
  "registerSchema_resume st fileArg opts schema =
     (if name schema \<in> dom (schemas st) \<and> \<not> replace opts
      then (st, Some (SCHEMA_EXISTS (name schema) fileArg))
      else
        let st1 = (if name schema \<in> dom (schemas st) then deregisterSchema st (name schema) else st);
            st2 = st1\<lparr>schemas := (schemas st1)(name schema \<mapsto> schema)\<rparr>;
            st3 = applyPending st2 (name schema)
        in (case raw schema of
              None \<Rightarrow> (st3, Some TYPE_ERROR)
            | Some d \<Rightarrow>
                let st4 = (case patch d of
                             None \<Rightarrow> st3
                           | Some p \<Rightarrow> extendSchema st3 (refKey p) (name schema))
                in (log st4 Debug [Text ''REGISTER_SCHEMA'', Text (name schema), Value fileArg],
                    None)))"

definition registerSchema ::
  "host \<Rightarrow> JsonSchemaModule \<Rightarrow> jsval \<Rightarrow> options \<Rightarrow> JsonSchemaModule \<times> error option" where
  "registerSchema h st fileArg opts =
     (case registerSchema_start h st fileArg opts of
        (st1, Inl e) \<Rightarrow> (st1, Some e)
      | (st1, Inr schema) \<Rightarrow> registerSchema_resume st1 fileArg opts schema)"

subsection \<open>Discovery\<close>

text \<open>
  \<^verbatim>\<open>registerSchemas\<close> empties the catalog and starts one task per component root. A
  task globs the root, calls \<^verbatim>\<open>registerSchema\<close> on every file found and, once all of
  these calls have settled, logs the reasons of the rejected ones.
  \<^verbatim>\<open>files.map(f => this.registerSchema(f))\<close> runs every call up to its await before any
  of them resumes. The order in which the globs and the loads complete is left to the
  event loop. This subsection gives the pass as a function, for the schedule in which
  they complete in the order they were requested and each root is finished before the
  next glob answers; the next subsection gives every schedule.
  \<^verbatim>\<open>Promise.all\<close> rejects with the first rejection, which here can only be a failed glob;
  the other tasks run on regardless.
\<close>

definition noOptions :: options where
  "noOptions = \<lparr>replace = False\<rparr>"

fun startAll ::
  "host \<Rightarrow> JsonSchemaModule \<Rightarrow> string list \<Rightarrow>
   JsonSchemaModule \<times> (string \<times> (error + JsonSchema)) list" where
  "startAll h st [] = (st, [])"
| "startAll h st (f # fs) =
     (case registerSchema_start h st (JStr f) noOptions of
        (st1, r) \<Rightarrow> (case startAll h st1 fs of (st2, rs) \<Rightarrow> (st2, (f, r) # rs)))"

text \<open>
  The second half of one call, once its load has settled: a failed load rejects the call
  with the load's error, a loaded unit goes through lines 105 to 113. The result is the
  state and the reason if the call is rejected.
\<close>

definition settleOne ::
  "JsonSchemaModule \<Rightarrow> string \<Rightarrow> error + JsonSchema \<Rightarrow> JsonSchemaModule \<times> error option" where
  "settleOne st f r =
     (case r of
        Inl e \<Rightarrow> (st, Some e)
      | Inr schema \<Rightarrow> registerSchema_resume st (JStr f) noOptions schema)"

fun settleAll ::
  "JsonSchemaModule \<Rightarrow> (string \<times> (error + JsonSchema)) list \<Rightarrow> JsonSchemaModule \<times> error list" where
  "settleAll st [] = (st, [])"
| "settleAll st ((f, r) # ps) =
     (case settleOne st f r of
        (st1, x) \<Rightarrow>
          (case settleAll st1 ps of
             (st2, es) \<Rightarrow> (st2, (case x of None \<Rightarrow> es | Some e \<Rightarrow> e # es))))"

definition logRejected :: "JsonSchemaModule \<Rightarrow> error list \<Rightarrow> JsonSchemaModule" where
  "logRejected st es = foldl (\<lambda>s e. log s Warn [Reason e]) st es"

definition scanDependency ::
  "host \<Rightarrow> JsonSchemaModule \<Rightarrow> string \<Rightarrow> JsonSchemaModule \<times> error option" where
  "scanDependency h st rootDir =
     (case glob h rootDir of
        Inl e \<Rightarrow> (st, Some e)
      | Inr files \<Rightarrow>
          (case startAll h st files of
             (st1, ps) \<Rightarrow> (case settleAll st1 ps of (st2, es) \<Rightarrow> (logRejected st2 es, None))))"

fun scanAll ::
  "host \<Rightarrow> JsonSchemaModule \<Rightarrow> string list \<Rightarrow> JsonSchemaModule \<times> error option" where
  "scanAll h st [] = (st, None)"
| "scanAll h st (d # ds) =
     (case scanDependency h st d of
        (st1, r1) \<Rightarrow>
          (case scanAll h st1 ds of
             (st2, r2) \<Rightarrow> (st2, (case r1 of Some e \<Rightarrow> Some e | None \<Rightarrow> r2))))"

definition registerSchemas :: "host \<Rightarrow> JsonSchemaModule \<Rightarrow> JsonSchemaModule \<times> error option" where
  "registerSchemas h st = scanAll h (st\<lparr>schemas := Map.empty\<rparr>) (dependencies h)"

subsection \<open>Discovery under every schedule\<close>

text \<open>
  A call of \<^verbatim>\<open>registerSchema\<close> made by a task is a file, what its load settles with,
  and its outcome: none while the call awaits the load, then fulfilled (no reason) or
  rejected with a reason. A task is waiting for its glob, or holds its calls in file
  order, or has finished.
\<close>

type_synonym call = "string \<times> (error + JsonSchema) \<times> error option option"

datatype task = Globbing string | Settling string "call list" | Finished string

fun root :: "task \<Rightarrow> string" where
  "root (Globbing d) = d"
| "root (Settling d cs) = d"
| "root (Finished d) = d"

text \<open>
  The reasons of the rejected calls, in file order, as \<^verbatim>\<open>Promise.allSettled\<close> followed by
  the filter gives them.
\<close>

fun rejected :: "call list \<Rightarrow> error list" where
  "rejected [] = []"
| "rejected ((f, r, Some (Some e)) # cs) = e # rejected cs"
| "rejected (c # cs) = rejected cs"

definition awaiting :: "string \<times> (error + JsonSchema) \<Rightarrow> call" where
  "awaiting p = (fst p, snd p, None)"

text \<open>
  A pass is the module state, the tasks in the order of the component roots, and the
  rejection of \<^verbatim>\<open>Promise.all\<close> if there is one. Each step is one turn of the event
  loop: a glob fails, which finishes its task and rejects \<^verbatim>\<open>Promise.all\<close> unless it is
  rejected already; a glob answers, and the task starts all its calls; the load of some
  pending call settles, and that call runs to its end; or all calls of a task have
  settled, and the task logs the rejected ones and finishes.
\<close>

type_synonym pass = "JsonSchemaModule \<times> task list \<times> error option"

inductive passStep :: "host \<Rightarrow> pass \<Rightarrow> pass \<Rightarrow> bool" for h :: host where
  globFailed:
    "glob h d = Inl e \<Longrightarrow>
     passStep h (st, ts @ Globbing d # ts', rej)
            (st, ts @ Finished d # ts', (case rej of None \<Rightarrow> Some e | Some x \<Rightarrow> Some x))"
| globbed:
    "glob h d = Inr fs \<Longrightarrow> startAll h st fs = (st1, ps) \<Longrightarrow>
     passStep h (st, ts @ Globbing d # ts', rej)
            (st1, ts @ Settling d (map awaiting ps) # ts', rej)"
| loadSettled:
    "settleOne st f r = (st1, x) \<Longrightarrow>
     passStep h (st, ts @ Settling d (cs @ (f, r, None) # cs') # ts', rej)
            (st1, ts @ Settling d (cs @ (f, r, Some x) # cs') # ts', rej)"
| allSettled:
    "\<forall>c \<in> set cs. snd (snd c) \<noteq> None \<Longrightarrow>
     passStep h (st, ts @ Settling d cs # ts', rej)
            (logRejected st (rejected cs), ts @ Finished d # ts', rej)"

definition passStart :: "host \<Rightarrow> JsonSchemaModule \<Rightarrow> pass" where
  "passStart h st = (st\<lparr>schemas := Map.empty\<rparr>, map Globbing (dependencies h), None)"

definition passDone :: "pass \<Rightarrow> bool" where
  "passDone p \<longleftrightarrow> (\<forall>t \<in> set (fst (snd p)). \<exists>d. t = Finished d)"

text \<open>The calls of a task after they have settled in file order.\<close>

fun settledCalls ::
  "JsonSchemaModule \<Rightarrow> (string \<times> (error + JsonSchema)) list \<Rightarrow> call list" where
  "settledCalls st [] = []"
| "settledCalls st ((f, r) # ps) =
     (f, r, Some (snd (settleOne st f r))) # settledCalls (fst (settleOne st f r)) ps"

text \<open>
  The turns of the event loop a task still has before it: one for a glob that fails, two
  and one per file for a glob that answers, one and one per pending call afterwards.
\<close>

fun work :: "host \<Rightarrow> task \<Rightarrow> nat" where
  "work h (Globbing d) = (case glob h d of Inl e \<Rightarrow> 1 | Inr fs \<Rightarrow> length fs + 2)"
| "work h (Settling d cs) = length (filter (\<lambda>c. snd (snd c) = None) cs) + 1"
| "work h (Finished d) = 0"

definition workLeft :: "host \<Rightarrow> pass \<Rightarrow> nat" where
  "workLeft h p = sum_list (map (work h) (fst (snd p)))"

subsection \<open>Lookup\<close>


subsection \<open>A small installation\<close>

text \<open>
  Concrete collaborators for the closed statements below: two component roots, a base
  schema \<^verbatim>\<open>course\<close>, a schema \<^verbatim>\<open>ext\<close> that patches it, later versions of both, and a
  file that does not parse. Units get their name when they are loaded.
\<close>

definition demoHost :: host where
  "demoHost =
     \<lparr>dependencies = [''core'', ''plugin''],
      glob = (\<lambda>d. if d = ''core'' then Inr [''c.json'', ''bad.json'']
                  else if d = ''plugin'' then Inr [''e.json'']
                  else Inl (HOST_ERROR ''ENOENT'')),
      readSchema =
        (\<lambda>f. if f = ''c.json'' then Inr \<lparr>docName = ''course'', patch = None, content = 1\<rparr>
             else if f = ''e.json''
               then Inr \<lparr>docName = ''ext'', patch = Some (PatchRef ''course''), content = 2\<rparr>
             else if f = ''c2.json'' then Inr \<lparr>docName = ''course'', patch = None, content = 3\<rparr>
             else if f = ''e2.json'' then Inr \<lparr>docName = ''ext'', patch = None, content = 4\<rparr>
             else Inl (LOAD_ERROR f)),
      ctorName = (\<lambda>f. ''undefined'')\<rparr>"

definition courseUnit :: JsonSchema where
  "courseUnit =
     \<lparr>name = ''course'', filePath = ''c.json'',
      raw = Some \<lparr>docName = ''course'', patch = None, content = 1\<rparr>,
      extensions = []\<rparr>"

definition courseOnly :: JsonSchemaModule where
  "courseOnly = init\<lparr>schemas := [''course'' \<mapsto> courseUnit]\<rparr>"





text \<open>The patching schema is registered first and waits in the ledger for its base.\<close>

definition extOnly :: JsonSchemaModule where
  "extOnly = fst (registerSchema demoHost init (JStr ''e.json'') noOptions)"

definition extThenBase :: JsonSchemaModule where
  "extThenBase = fst (registerSchema demoHost extOnly (JStr ''c.json'') noOptions)"

text \<open>
  One root in which the patching schema is listed before its base, for any way the
  constructor may name a unit.
\<close>

definition pluginHost :: "(string \<Rightarrow> string) \<Rightarrow> host" where
  "pluginHost cn =
     demoHost\<lparr>dependencies := [''plugin''],
              glob := (\<lambda>d. if d = ''plugin'' then Inr [''e.json'', ''c.json'']
                           else Inl (HOST_ERROR ''ENOENT'')),
              ctorName := cn\<rparr>"

subsection \<open>Relations between states of a discovery pass\<close>

text \<open>
  \<open>grows st st'\<close>: every unit of the catalog of \<open>st\<close> is still registered in \<open>st'\<close>, from
  the same file and with the same document, its extension set at most larger, and the
  log of \<open>st\<close> is contained in the log of \<open>st'\<close>.
\<close>

definition grows :: "JsonSchemaModule \<Rightarrow> JsonSchemaModule \<Rightarrow> bool" where
  "grows st st' \<longleftrightarrow>
     (\<forall>k v. schemas st k = Some v \<longrightarrow>
        (\<exists>v'. schemas st' k = Some v' \<and> name v' = name v \<and> filePath v' = filePath v \<and>
              raw v' = raw v \<and> set (extensions v) \<subseteq> set (extensions v'))) \<and>
     set (logs st) \<subseteq> set (logs st')"

text \<open>
  \<open>settled h st f\<close>: the file \<open>f\<close> has been dealt with. If it does not load, the reason is
  in the log as a warning. If it loads, its schema name is registered, by the unit loaded
  from \<open>f\<close> or else with the name clash of \<open>f\<close> in the log as a warning.
\<close>

definition settled :: "host \<Rightarrow> JsonSchemaModule \<Rightarrow> string \<Rightarrow> bool" where
  "settled h st f =
     (case readSchema h f of
        Inl e \<Rightarrow> (Warn, [Reason e]) \<in> set (logs st)
      | Inr doc \<Rightarrow>
          (\<exists>v. schemas st (docName doc) = Some v \<and>
               (filePath v = f \<or>
                (Warn, [Reason (SCHEMA_EXISTS (docName doc) (JStr f))]) \<in> set (logs st))))"

text \<open>
  \<open>deferredKept n X st\<close>: the names \<open>X\<close> are pending for \<open>n\<close> in the ledger and, if \<open>n\<close> is
  registered, are in its extension set.
\<close>

definition deferredKept :: "string \<Rightarrow> string set \<Rightarrow> JsonSchemaModule \<Rightarrow> bool" where
  "deferredKept n X st \<longleftrightarrow>
     X \<subseteq> set (pending st n) \<and> (\<forall>v. schemas st n = Some v \<longrightarrow> X \<subseteq> set (extensions v))"

text \<open>
  \<open>loaded h f r\<close>: \<open>r\<close> is what the load of the file \<open>f\<close> settles with. \<open>outcomeOK st f r x\<close>:
  the call for \<open>f\<close> has ended with \<open>x\<close> as it should; a failed load is the reason of the
  rejection, and the name of a loaded unit is registered, by the unit loaded from \<open>f\<close> or
  else the call is rejected with the name clash.
\<close>

definition loaded :: "host \<Rightarrow> string \<Rightarrow> error + JsonSchema \<Rightarrow> bool" where
  "loaded h f r =
     (case readSchema h f of
        Inl e \<Rightarrow> r = Inl e
      | Inr doc \<Rightarrow> (\<exists>u. r = Inr u \<and> name u = docName doc \<and> filePath u = f \<and> raw u = Some doc))"

definition outcomeOK :: "JsonSchemaModule \<Rightarrow> string \<Rightarrow> error + JsonSchema \<Rightarrow> error option \<Rightarrow> bool" where
  "outcomeOK st f r x =
     (case r of
        Inl e \<Rightarrow> x = Some e
      | Inr u \<Rightarrow> (\<exists>v. schemas st (name u) = Some v \<and>
                   (filePath v = f \<or> x = Some (SCHEMA_EXISTS (name u) (JStr f)))))"

text \<open>
  What holds of a task at every moment of a pass, and of the pass as a whole; \<open>found h\<close>
  are the schema names of the files that the globs find and that load.
\<close>

fun taskOK :: "host \<Rightarrow> JsonSchemaModule \<Rightarrow> task \<Rightarrow> bool" where
  "taskOK h st (Globbing d) = True"
| "taskOK h st (Settling d cs) =
     (glob h d = Inr (map fst cs) \<and>
      (\<forall>c \<in> set cs. loaded h (fst c) (fst (snd c)) \<and>
         (\<forall>x. snd (snd c) = Some x \<longrightarrow> outcomeOK st (fst c) (fst (snd c)) x)))"
| "taskOK h st (Finished d) = (\<forall>fs. glob h d = Inr fs \<longrightarrow> (\<forall>f \<in> set fs. settled h st f))"

definition found :: "host \<Rightarrow> string set" where
  "found h = {n. \<exists>d \<in> set (dependencies h). \<exists>fs. glob h d = Inr fs \<and>
                 (\<exists>f \<in> set fs. \<exists>doc. readSchema h f = Inr doc \<and> docName doc = n)}"

definition passOK :: "host \<Rightarrow> pass \<Rightarrow> bool" where
  "passOK h p \<longleftrightarrow>
     (case p of (st, ts, rej) \<Rightarrow>
        map root ts = dependencies h \<and>
        (\<forall>t \<in> set ts. taskOK h st t) \<and>
        (\<forall>e. rej = Some e \<longrightarrow> (\<exists>d \<in> set (dependencies h). glob h d = Inl e)) \<and>
        dom (schemas st) \<subseteq> found h)"


text \<open>
  A second installation: one root with the schema \<^verbatim>\<open>course\<close> and a schema whose name is
  the string \<^verbatim>\<open>undefined\<close>, and a schema \<^verbatim>\<open>page\<close> outside the roots that patches the latter.
\<close>

definition quirkHost :: host where
  "quirkHost =
     \<lparr>dependencies = [''core''],
      glob = (\<lambda>d. if d = ''core'' then Inr [''c.json'', ''u.json''] else Inl (HOST_ERROR ''ENOENT'')),
      readSchema =
        (\<lambda>f. if f = ''c.json'' then Inr \<lparr>docName = ''course'', patch = None, content = 1\<rparr>
             else if f = ''u.json'' then Inr \<lparr>docName = ''undefined'', patch = None, content = 2\<rparr>
             else if f = ''p.json''
               then Inr \<lparr>docName = ''page'', patch = Some (PatchRef ''undefined''), content = 3\<rparr>
             else Inl (LOAD_ERROR f)),
      ctorName = (\<lambda>f. ''undefined'')\<rparr>"

definition pageDeferred :: JsonSchemaModule where
  "pageDeferred = fst (registerSchema quirkHost init (JStr ''p.json'') noOptions)"

text \<open>
  A third installation: the only file of the only root does not parse, and an extension
  waits under the name the constructor gives that file's unit, whatever that name is.
\<close>

definition brokenHost :: "(string \<Rightarrow> string) \<Rightarrow> host" where
  "brokenHost cn =
     demoHost\<lparr>dependencies := [''core''],
              glob := (\<lambda>d. if d = ''core'' then Inr [''bad.json''] else Inl (HOST_ERROR ''ENOENT'')),
              ctorName := cn\<rparr>"

definition awaitingBroken :: "(string \<Rightarrow> string) \<Rightarrow> JsonSchemaModule" where
  "awaitingBroken cn = init\<lparr>schemaExtensions := [cn ''bad.json'' \<mapsto> [''page'']]\<rparr>"

section \<open>Properties\<close>

subsection \<open>Argument check of \<^verbatim>\<open>registerSchema\<close>\<close>

text \<open>
  C9. A call of \<^verbatim>\<open>registerSchema\<close> whose \<^verbatim>\<open>filePath\<close> argument is not a string fails with
  \<open>INVALID_PARAMS\<close> naming the parameter \<^verbatim>\<open>filePath\<close>; nothing is constructed or loaded,
  and the state (catalog, ledger and everything else) is the one the call started from.
\<close>

theorem registerSchema_invalid_params:
  "\<not> isString fileArg \<Longrightarrow>
   registerSchema h st fileArg opts = (st, Some (INVALID_PARAMS [''filePath''])) \<and>
   registerSchema_start h st fileArg opts = (st, Inl (INVALID_PARAMS [''filePath'']))"
  by (cases fileArg) (simp_all add: registerSchema_def registerSchema_start_def)

theorem registerSchema_invalid_params_witness:
  "\<not> isString (JNum 3) \<and>
   registerSchema demoHost courseOnly (JNum 3) noOptions =
     (courseOnly, Some (INVALID_PARAMS [''filePath'']))"
  using registerSchema_invalid_params [of "JNum 3" demoHost courseOnly noOptions] by simp

subsection \<open>Lookup\<close>



subsection \<open>Keywords\<close>



subsection \<open>String formats\<close>







subsection \<open>Schema units\<close>

lemma addExtension_fields [simp]:
  "name (addExtension u x) = name u"
  "filePath (addExtension u x) = filePath u"
  "raw (addExtension u x) = raw u"
  by (simp_all add: addExtension_def)

lemma addExtension_set [simp]:
  "set (extensions (addExtension u x)) = insert x (set (extensions u))"
  by (auto simp: addExtension_def)

lemma foldl_addExtension_fields [simp]:
  "name (foldl addExtension u xs) = name u"
  "filePath (foldl addExtension u xs) = filePath u"
  "raw (foldl addExtension u xs) = raw u"
  by (induction xs arbitrary: u) simp_all

lemma foldl_addExtension_set [simp]:
  "set (extensions (foldl addExtension u xs)) = set (extensions u) \<union> set xs"
  by (induction xs arbitrary: u) auto

lemma createSchema_loaded:
  "readSchema h fp = Inr d \<Longrightarrow>
   createSchema h st fp opts =
     (st\<lparr>schemaExtensions := (schemaExtensions st)(ctorName h fp := None)\<rparr>,
      Inr ((foldl addExtension (newJsonSchema h fp) (pending st (ctorName h fp)))
             \<lparr>name := docName d, raw := Some d\<rparr>))"
  by (simp add: createSchema_def load_def Let_def newJsonSchema_def)

lemma createSchema_failed:
  "readSchema h fp = Inl e \<Longrightarrow>
   createSchema h st fp opts =
     (st\<lparr>schemaExtensions := (schemaExtensions st)(ctorName h fp := None)\<rparr>, Inl e)"
  by (simp add: createSchema_def load_def Let_def newJsonSchema_def)

lemmas reg_defs =
  registerSchema_def registerSchema_start_def createSchema_loaded
  registerSchema_resume_def Let_def deregisterSchema_def log_def applyPending_def
  extendSchema_def newJsonSchema_def pending_def

lemmas eval_defs =
  registerSchema_def registerSchema_start_def createSchema_def load_def newJsonSchema_def
  registerSchema_resume_def deregisterSchema_def applyPending_def extendSchema_def
  pending_def log_def addExtension_def Let_def init_def noOptions_def demoHost_def

subsection \<open>Name conflicts\<close>



subsection \<open>Patch sources\<close>



subsection \<open>Replacement\<close>




subsection \<open>Draining the ledger\<close>

text \<open>
  A successful registration hands the new unit every name that was pending for it, in
  \<^verbatim>\<open>createSchema\<close> when the unit already carries its name there, in line 110 otherwise.
\<close>

lemma registerSchema_applies_pending:
  assumes "registerSchema h st (JStr fp) opts = (st', None)" and "readSchema h fp = Inr d"
  shows "\<exists>u. schemas st' (docName d) = Some u \<and> set (pending st (docName d)) \<subseteq> set (extensions u)"
  using assms
  by (auto simp: reg_defs split: option.splits if_splits)

text \<open>
  The ledger entry is deleted in \<^verbatim>\<open>createSchema\<close> only, under the name the unit has before
  \<^verbatim>\<open>load\<close>. If that is the schema's name, the entry is gone after the registration.
\<close>

lemma registerSchema_drains_constructed_name:
  assumes "registerSchema h st (JStr fp) opts = (st', None)" and "readSchema h fp = Inr d"
    and "ctorName h fp = docName d"
  shows "schemaExtensions st' (docName d) = None"
  using assms
  by (auto simp: reg_defs split: option.splits if_splits)

text \<open>If it is not, line 110 reads the entry and leaves it where it is.\<close>

lemma registerSchema_keeps_entry:
  assumes "registerSchema h st (JStr fp) opts = (st', None)" and "readSchema h fp = Inr d"
    and "ctorName h fp \<noteq> docName d"
  shows "schemaExtensions st' (docName d) = schemaExtensions st (docName d)"
  using assms
  by (auto simp: reg_defs split: option.splits if_splits)

text \<open>A load that fails leaves the ledger drained under that name all the same.\<close>

lemma registerSchema_load_failure:
  "readSchema h fp = Inl e \<Longrightarrow>
   registerSchema h st (JStr fp) opts =
     (st\<lparr>schemaExtensions := (schemaExtensions st)(ctorName h fp := None)\<rparr>, Some e)"
  by (simp add: registerSchema_def registerSchema_start_def createSchema_failed)

text \<open>
  Two calls in sequence, with units that get their name at load: \<^verbatim>\<open>ext\<close> is registered
  before its base and waits in the ledger under \<^verbatim>\<open>course\<close>; then \<^verbatim>\<open>course\<close> is registered.
  The new unit has received \<^verbatim>\<open>ext\<close>, and the ledger still holds the entry for \<^verbatim>\<open>course\<close>.
\<close>

lemma ledger_entry_outlives_registration:
  "schemaExtensions extOnly ''course'' = Some [''ext''] \<and>
   registerSchema demoHost extOnly (JStr ''c.json'') noOptions = (extThenBase, None) \<and>
   schemas extThenBase ''course'' = Some (courseUnit\<lparr>extensions := [''ext'']\<rparr>) \<and>
   schemaExtensions extThenBase ''course'' = Some [''ext'']"
  by (simp add: extThenBase_def extOnly_def courseUnit_def eval_defs)

lemmas scan_defs = registerSchemas_def scanDependency_def logRejected_def settleOne_def

text \<open>
  C1, evaluated. A discovery pass over one root that lists \<^verbatim>\<open>ext\<close> before its base
  \<^verbatim>\<open>course\<close>, from the empty registry. Both calls of \<^verbatim>\<open>registerSchema\<close> run
  \<^verbatim>\<open>createSchema\<close> before either resumes, so the delete of line 140 comes before \<^verbatim>\<open>ext\<close>
  defers itself; when \<^verbatim>\<open>course\<close> resumes, line 110 hands it \<^verbatim>\<open>ext\<close> and leaves the entry.
  Whatever name the constructor gives a unit, the pass ends with \<^verbatim>\<open>course\<close> registered,
  extended by \<^verbatim>\<open>ext\<close>, and with the ledger entry for \<^verbatim>\<open>course\<close> still there.
\<close>

theorem ledger_entry_outlives_discovery:
  "snd (registerSchemas (pluginHost cn) init) = None \<and>
   schemas (fst (registerSchemas (pluginHost cn) init)) ''course'' =
     Some (courseUnit\<lparr>extensions := [''ext'']\<rparr>) \<and>
   schemaExtensions (fst (registerSchemas (pluginHost cn) init)) ''course'' = Some [''ext'']"
  by (simp add: pluginHost_def courseUnit_def scan_defs eval_defs)

subsection \<open>Steps of a discovery pass\<close>

lemma grows_refl [simp]: "grows st st"
  by (simp add: grows_def)

lemma grows_trans: "grows a b \<Longrightarrow> grows b c \<Longrightarrow> grows a c"
  unfolding grows_def by fastforce

lemma grows_log [simp]: "grows st (log st lvl items)"
  by (auto simp: grows_def log_def)

lemma start_schemas [simp]: "schemas (fst (registerSchema_start h st a opts)) = schemas st"
  by (cases a) (simp_all add: registerSchema_start_def createSchema_def Let_def)

lemma start_logs [simp]: "logs (fst (registerSchema_start h st a opts)) = logs st"
  by (cases a) (simp_all add: registerSchema_start_def createSchema_def Let_def)

lemma start_ledger:
  "k \<noteq> ctorName h f \<Longrightarrow>
   schemaExtensions (fst (registerSchema_start h st (JStr f) opts)) k = schemaExtensions st k"
  by (simp add: registerSchema_start_def createSchema_def Let_def newJsonSchema_def)

lemma start_loaded:
  "readSchema h f = Inr d \<Longrightarrow>
   \<exists>u. snd (registerSchema_start h st (JStr f) opts) = Inr u \<and> name u = docName d \<and>
       filePath u = f \<and> raw u = Some d"
  by (simp add: registerSchema_start_def createSchema_loaded newJsonSchema_def)

lemma start_failed:
  "readSchema h f = Inl e \<Longrightarrow> snd (registerSchema_start h st (JStr f) opts) = Inl e"
  by (simp add: registerSchema_start_def createSchema_failed)

lemma start_grows [simp]: "grows st (fst (registerSchema_start h st a opts))"
  by (simp add: grows_def)

lemma extendSchema_grows [simp]: "grows st (extendSchema st b e)"
  by (auto simp: grows_def extendSchema_def log_def split: option.splits)

lemma applyPending_grows [simp]: "grows st (applyPending st n)"
  by (auto simp: grows_def applyPending_def split: option.splits)

lemma resume_grows [simp]: "grows st (fst (registerSchema_resume st a noOptions u))"
proof (cases "name u \<in> dom (schemas st)")
  case True
  then show ?thesis by (simp add: registerSchema_resume_def noOptions_def)
next
  case False
  let ?st2 = "st\<lparr>schemas := (schemas st)(name u \<mapsto> u)\<rparr>"
  have a: "grows st ?st2" using False by (auto simp: grows_def)
  have b: "grows ?st2 (applyPending ?st2 (name u))" by simp
  note ab = grows_trans [OF a b]
  show ?thesis
  proof (cases "raw u")
    case None
    with False ab show ?thesis by (simp add: registerSchema_resume_def Let_def)
  next
    case (Some d)
    show ?thesis
    proof (cases "patch d")
      case None
      with Some False show ?thesis
        by (auto simp: registerSchema_resume_def Let_def intro: grows_trans [OF ab])
    next
      case (Some p)
      with \<open>raw u = Some d\<close> False show ?thesis
        by (auto simp: registerSchema_resume_def Let_def
            intro: grows_trans [OF ab] grows_trans [OF extendSchema_grows grows_log])
    qed
  qed
qed

lemma resume_outcome:
  assumes "raw u = Some d"
  shows "(snd (registerSchema_resume st a noOptions u) = None \<and>
            (\<exists>v. schemas (fst (registerSchema_resume st a noOptions u)) (name u) = Some v \<and>
                 filePath v = filePath u)) \<or>
         (snd (registerSchema_resume st a noOptions u) = Some (SCHEMA_EXISTS (name u) a) \<and>
            name u \<in> dom (schemas st))"
  using assms
  by (auto simp: registerSchema_resume_def noOptions_def Let_def applyPending_def
      extendSchema_def log_def split: option.splits)

lemma resume_dom:
  "dom (schemas (fst (registerSchema_resume st a noOptions u))) \<subseteq> insert (name u) (dom (schemas st))"
  by (auto simp: registerSchema_resume_def noOptions_def Let_def applyPending_def
      extendSchema_def log_def split: option.splits if_splits)

lemma startAll_grows: "grows st (fst (startAll h st fs))"
proof (induction fs arbitrary: st)
  case Nil
  show ?case by simp
next
  case (Cons f fs)
  obtain st1 r where s: "registerSchema_start h st (JStr f) noOptions = (st1, r)"
    by (cases "registerSchema_start h st (JStr f) noOptions")
  have "grows st st1" using start_grows [of st h "JStr f" noOptions] s by simp
  moreover have "grows st1 (fst (startAll h st1 fs))" by (rule Cons.IH)
  ultimately show ?case using s by (auto simp: split_def intro: grows_trans)
qed

lemma startAll_schemas [simp]: "schemas (fst (startAll h st fs)) = schemas st"
proof (induction fs arbitrary: st)
  case Nil
  show ?case by simp
next
  case (Cons f fs)
  have "schemas (fst (registerSchema_start h st (JStr f) noOptions)) = schemas st" by simp
  with Cons.IH [of "fst (registerSchema_start h st (JStr f) noOptions)"]
  show ?case by (simp add: split_def)
qed

lemma startAll_results:
  "(f, r) \<in> set (snd (startAll h st fs)) \<Longrightarrow>
   f \<in> set fs \<and>
   (case readSchema h f of
      Inl e \<Rightarrow> r = Inl e
    | Inr d \<Rightarrow> \<exists>u. r = Inr u \<and> name u = docName d \<and> filePath u = f \<and> raw u = Some d)"
proof (induction fs arbitrary: st)
  case Nil
  then show ?case by simp
next
  case (Cons g fs)
  let ?s = "registerSchema_start h st (JStr g) noOptions"
  from Cons.prems have "(f, r) = (g, snd ?s) \<or> (f, r) \<in> set (snd (startAll h (fst ?s) fs))"
    by (auto simp: split_def)
  then show ?case
  proof
    assume "(f, r) = (g, snd ?s)"
    then show ?thesis
      using start_loaded [of h g _ st noOptions] start_failed [of h g _ st noOptions]
      by (auto split: sum.splits)
  next
    assume "(f, r) \<in> set (snd (startAll h (fst ?s) fs))"
    from Cons.IH [OF this] show ?thesis by simp
  qed
qed

lemma startAll_files: "map fst (snd (startAll h st fs)) = fs"
  by (induction fs arbitrary: st) (auto simp: split_def)

lemma grows_dom: "grows st st' \<Longrightarrow> n \<in> dom (schemas st) \<Longrightarrow> n \<in> dom (schemas st')"
  unfolding grows_def by fastforce

lemma logRejected_schemas [simp]: "schemas (logRejected st es) = schemas st"
  unfolding logRejected_def by (induction es arbitrary: st) (simp_all add: log_def)

lemma logRejected_logs:
  "logs (logRejected st es) = logs st @ map (\<lambda>e. (Warn, [Reason e])) es"
  unfolding logRejected_def by (induction es arbitrary: st) (simp_all add: log_def)

lemma logRejected_grows [simp]: "grows st (logRejected st es)"
  by (simp add: grows_def logRejected_logs)

lemma settled_grows: "grows st st' \<Longrightarrow> settled h st f \<Longrightarrow> settled h st' f"
  unfolding settled_def grows_def by (fastforce split: sum.splits)

subsection \<open>Every schedule of a discovery pass\<close>

lemma outcomeOK_grows: "grows st st' \<Longrightarrow> outcomeOK st f r x \<Longrightarrow> outcomeOK st' f r x"
  unfolding outcomeOK_def grows_def by (fastforce split: sum.splits)

lemma taskOK_grows: "grows st st' \<Longrightarrow> taskOK h st t \<Longrightarrow> taskOK h st' t"
  by (cases t) (auto intro: outcomeOK_grows settled_grows)

lemma settleOne_grows: "grows st (fst (settleOne st f r))"
  by (cases r) (simp_all add: settleOne_def)

lemma settleOne_outcome:
  assumes "loaded h f r"
  shows "outcomeOK (fst (settleOne st f r)) f r (snd (settleOne st f r))"
proof (cases r)
  case (Inl e)
  then show ?thesis by (simp add: settleOne_def outcomeOK_def)
next
  case (Inr u)
  with assms obtain doc where d: "raw u = Some doc" "filePath u = f"
    by (auto simp: loaded_def split: sum.splits)
  from resume_outcome [OF d(1), of st "JStr f"]
  show ?thesis
  proof
    assume "snd (registerSchema_resume st (JStr f) noOptions u) = None \<and>
      (\<exists>v. schemas (fst (registerSchema_resume st (JStr f) noOptions u)) (name u) = Some v \<and>
           filePath v = filePath u)"
    with d(2) Inr show ?thesis by (auto simp: settleOne_def outcomeOK_def)
  next
    assume c: "snd (registerSchema_resume st (JStr f) noOptions u) =
        Some (SCHEMA_EXISTS (name u) (JStr f)) \<and> name u \<in> dom (schemas st)"
    have "grows st (fst (registerSchema_resume st (JStr f) noOptions u))" by simp
    from grows_dom [OF this] c
    have "name u \<in> dom (schemas (fst (registerSchema_resume st (JStr f) noOptions u)))" by simp
    with c Inr show ?thesis by (auto simp: settleOne_def outcomeOK_def)
  qed
qed

lemma settleOne_dom:
  "n \<in> dom (schemas (fst (settleOne st f r))) \<Longrightarrow>
   n \<in> dom (schemas st) \<or> (\<exists>u. r = Inr u \<and> name u = n)"
  using resume_dom [of st "JStr f"] by (cases r) (auto simp: settleOne_def)

lemma rejected_mem:
  "(f, r, Some (Some e)) \<in> set cs \<Longrightarrow> e \<in> set (rejected cs)"
  by (induction cs rule: rejected.induct) auto

lemma root_in_dependencies:
  "map root (ts @ t # ts') = dependencies h \<Longrightarrow> root t \<in> set (dependencies h)"
  by (metis in_set_conv_decomp list.set_map imageI)

lemma loaded_found:
  assumes "d \<in> set (dependencies h)" and "glob h d = Inr fs" and "f \<in> set fs"
    and "loaded h f (Inr u)"
  shows "name u \<in> found h"
proof -
  from assms(4) obtain doc where "readSchema h f = Inr doc" "name u = docName doc"
    by (auto simp: loaded_def split: sum.splits)
  with assms(1-3) have "\<exists>d \<in> set (dependencies h). \<exists>fs. glob h d = Inr fs \<and>
      (\<exists>f \<in> set fs. \<exists>doc. readSchema h f = Inr doc \<and> docName doc = name u)"
    by (intro bexI [of _ d] exI [of _ fs] conjI bexI [of _ f] exI [of _ doc]) simp_all
  then show ?thesis by (simp add: found_def)
qed

lemma startAll_calls:
  assumes "startAll h st fs = (st1, ps)"
  shows "map fst (map awaiting ps) = fs"
    and "\<forall>c \<in> set (map awaiting ps). loaded h (fst c) (fst (snd c)) \<and> snd (snd c) = None"
proof -
  from assms have ps: "ps = snd (startAll h st fs)" by simp
  show "map fst (map awaiting ps) = fs"
    using startAll_files [of h st fs] ps by (simp add: awaiting_def comp_def)
  show "\<forall>c \<in> set (map awaiting ps). loaded h (fst c) (fst (snd c)) \<and> snd (snd c) = None"
  proof
    fix c assume "c \<in> set (map awaiting ps)"
    then obtain f r where m: "(f, r) \<in> set ps" and c: "c = (f, r, None)"
      by (auto simp: awaiting_def)
    from startAll_results [of f r h st fs] m ps have "loaded h f r"
      by (simp add: loaded_def)
    with c show "loaded h (fst c) (fst (snd c)) \<and> snd (snd c) = None" by simp
  qed
qed

lemma finished_settled:
  assumes ok: "taskOK h st (Settling d cs)" and all: "\<forall>c \<in> set cs. snd (snd c) \<noteq> None"
  shows "taskOK h (logRejected st (rejected cs)) (Finished d)"
proof -
  have "settled h (logRejected st (rejected cs)) f" if "f \<in> set (map fst cs)" for f
  proof -
    from that obtain r oc where m: "(f, r, oc) \<in> set cs" by auto
    with all obtain x where o: "oc = Some x" by fastforce
    from ok m o have l: "loaded h f r" and out: "outcomeOK st f r x" by auto
    show ?thesis
    proof (cases "readSchema h f")
      case (Inl e)
      with l have "r = Inl e" by (simp add: loaded_def)
      with out have "x = Some e" by (simp add: outcomeOK_def)
      with m o have "e \<in> set (rejected cs)" by (auto intro: rejected_mem)
      then show ?thesis using Inl by (auto simp: settled_def logRejected_logs)
    next
      case (Inr doc)
      with l obtain u where u: "r = Inr u" "name u = docName doc" by (auto simp: loaded_def)
      with out obtain v where v: "schemas st (docName doc) = Some v"
        "filePath v = f \<or> x = Some (SCHEMA_EXISTS (docName doc) (JStr f))"
        by (auto simp: outcomeOK_def)
      from v(2) have "filePath v = f \<or>
          (Warn, [Reason (SCHEMA_EXISTS (docName doc) (JStr f))])
            \<in> set (logs (logRejected st (rejected cs)))"
      proof
        assume "filePath v = f"
        then show ?thesis by simp
      next
        assume "x = Some (SCHEMA_EXISTS (docName doc) (JStr f))"
        with m o have "SCHEMA_EXISTS (docName doc) (JStr f) \<in> set (rejected cs)"
          by (auto intro: rejected_mem)
        then show ?thesis by (auto simp: logRejected_logs)
      qed
      with v(1) Inr show ?thesis by (auto simp: settled_def)
    qed
  qed
  with ok show ?thesis by auto
qed

lemma step_grows: "passStep h p p' \<Longrightarrow> grows (fst p) (fst p')"
proof (induction rule: passStep.induct)
  case (globFailed d e st ts ts' rej)
  show ?case by simp
next
  case (globbed d fs st st1 ps ts ts' rej)
  then show ?case using startAll_grows [of st h fs] by simp
next
  case (loadSettled st f r st1 x ts d cs cs' ts' rej)
  then show ?case using settleOne_grows [of st f r] by simp
next
  case (allSettled cs st ts d ts' rej)
  show ?case by simp
qed

lemma passOK_iff:
  "passOK h (st, ts, rej) \<longleftrightarrow>
     map root ts = dependencies h \<and> (\<forall>t \<in> set ts. taskOK h st t) \<and>
     (\<forall>e. rej = Some e \<longrightarrow> (\<exists>d \<in> set (dependencies h). glob h d = Inl e)) \<and>
     dom (schemas st) \<subseteq> found h"
  by (simp add: passOK_def)

lemma tasks_grow:
  "grows st st' \<Longrightarrow> \<forall>t \<in> set (ts @ t0 # ts'). taskOK h st t \<Longrightarrow> taskOK h st' t1 \<Longrightarrow>
   \<forall>t \<in> set (ts @ t1 # ts'). taskOK h st' t"
  by (auto intro: taskOK_grows)

lemma step_passOK:
  assumes "passStep h p p'" and "passOK h p"
  shows "passOK h p'"
  using assms
proof (induction rule: passStep.induct)
  case (globFailed d e st ts ts' rej)
  from globFailed(2) have r: "map root (ts @ Globbing d # ts') = dependencies h"
    and t: "\<forall>t \<in> set (ts @ Globbing d # ts'). taskOK h st t"
    and j: "\<forall>e. rej = Some e \<longrightarrow> (\<exists>d \<in> set (dependencies h). glob h d = Inl e)"
    and dm: "dom (schemas st) \<subseteq> found h"
    by (simp_all add: passOK_iff)
  from root_in_dependencies [OF r] have d: "d \<in> set (dependencies h)" by simp
  have "taskOK h st (Finished d)" using globFailed(1) by simp
  from tasks_grow [OF grows_refl t this]
  have t': "\<forall>t \<in> set (ts @ Finished d # ts'). taskOK h st t" .
  have j': "\<forall>x. (case rej of None \<Rightarrow> Some e | Some x \<Rightarrow> Some x) = Some x \<longrightarrow>
      (\<exists>d \<in> set (dependencies h). glob h d = Inl x)"
    using j d globFailed(1) by (auto split: option.splits)
  from r t' j' dm show ?case by (simp add: passOK_iff)
next
  case (globbed d fs st st1 ps ts ts' rej)
  from globbed(3) have r: "map root (ts @ Globbing d # ts') = dependencies h"
    and t: "\<forall>t \<in> set (ts @ Globbing d # ts'). taskOK h st t"
    and j: "\<forall>e. rej = Some e \<longrightarrow> (\<exists>d \<in> set (dependencies h). glob h d = Inl e)"
    and dm: "dom (schemas st) \<subseteq> found h"
    by (simp_all add: passOK_iff)
  have g: "grows st st1" using startAll_grows [of st h fs] globbed(2) by simp
  have s: "schemas st1 = schemas st" using startAll_schemas [of h st fs] globbed(2) by simp
  from startAll_calls [OF globbed(2)] globbed(1)
  have "taskOK h st1 (Settling d (map awaiting ps))" by auto
  from tasks_grow [OF g t this]
  have t': "\<forall>t \<in> set (ts @ Settling d (map awaiting ps) # ts'). taskOK h st1 t" .
  from r t' j dm s show ?case by (simp add: passOK_iff)
next
  case (loadSettled st f r st1 x ts d cs cs' ts' rej)
  from loadSettled(2)
  have rt: "map root (ts @ Settling d (cs @ (f, r, None) # cs') # ts') = dependencies h"
    and t: "\<forall>t \<in> set (ts @ Settling d (cs @ (f, r, None) # cs') # ts'). taskOK h st t"
    and j: "\<forall>e. rej = Some e \<longrightarrow> (\<exists>d \<in> set (dependencies h). glob h d = Inl e)"
    and dm: "dom (schemas st) \<subseteq> found h"
    by (simp_all add: passOK_iff)
  have g: "grows st st1" using settleOne_grows [of st f r] loadSettled(1) by simp
  from t have old: "taskOK h st (Settling d (cs @ (f, r, None) # cs'))" by simp
  from old have l: "loaded h f r" and gl: "glob h d = Inr (map fst (cs @ (f, r, None) # cs'))"
    by auto
  from settleOne_outcome [OF l, of st] loadSettled(1) have out: "outcomeOK st1 f r x" by simp
  from old out g have "taskOK h st1 (Settling d (cs @ (f, r, Some x) # cs'))"
    by (auto intro: outcomeOK_grows)
  from tasks_grow [OF g t this]
  have t': "\<forall>t \<in> set (ts @ Settling d (cs @ (f, r, Some x) # cs') # ts'). taskOK h st1 t" .
  from root_in_dependencies [OF rt] have d: "d \<in> set (dependencies h)" by simp
  have dm': "dom (schemas st1) \<subseteq> found h"
  proof
    fix n assume "n \<in> dom (schemas st1)"
    with settleOne_dom [of n st f r] loadSettled(1)
    have "n \<in> dom (schemas st) \<or> (\<exists>u. r = Inr u \<and> name u = n)" by simp
    then show "n \<in> found h"
    proof
      assume "n \<in> dom (schemas st)"
      with dm show ?thesis by auto
    next
      assume "\<exists>u. r = Inr u \<and> name u = n"
      then obtain u where u: "r = Inr u" "name u = n" by blast
      from loaded_found [OF d gl, of f u] l u show ?thesis by simp
    qed
  qed
  from rt t' j dm' show ?case by (simp add: passOK_iff)
next
  case (allSettled cs st ts d ts' rej)
  from allSettled(2) have r: "map root (ts @ Settling d cs # ts') = dependencies h"
    and t: "\<forall>t \<in> set (ts @ Settling d cs # ts'). taskOK h st t"
    and j: "\<forall>e. rej = Some e \<longrightarrow> (\<exists>d \<in> set (dependencies h). glob h d = Inl e)"
    and dm: "dom (schemas st) \<subseteq> found h"
    by (simp_all add: passOK_iff)
  from t have "taskOK h st (Settling d cs)" by simp
  from finished_settled [OF this allSettled(1)]
  have f: "taskOK h (logRejected st (rejected cs)) (Finished d)" .
  have g: "grows st (logRejected st (rejected cs))" by simp
  from tasks_grow [OF g t f]
  have t': "\<forall>t \<in> set (ts @ Finished d # ts'). taskOK h (logRejected st (rejected cs)) t" .
  from r t' j dm show ?case by (simp add: passOK_iff)
qed

lemma run_passOK: "(passStep h)\<^sup>*\<^sup>* p p' \<Longrightarrow> passOK h p \<Longrightarrow> passOK h p'"
  by (induction rule: rtranclp_induct) (auto intro: step_passOK)

lemma start_passOK: "passOK h (passStart h st)"
  by (simp add: passOK_def passStart_def comp_def)

text \<open>
  A pass that is not done can take a step, whatever has failed so far, and every step
  uses up work: under every schedule the pass comes to its end.
\<close>

lemma passStep_progress:
  assumes "\<not> passDone (st, ts, rej)"
  shows "\<exists>p'. passStep h (st, ts, rej) p'"
proof -
  from assms obtain t where m: "t \<in> set ts" and n: "\<forall>d. t \<noteq> Finished d"
    by (auto simp: passDone_def)
  from split_list [OF m] obtain a b where ts: "ts = a @ t # b" by blast
  show ?thesis
  proof (cases t)
    case (Globbing d)
    show ?thesis
    proof (cases "glob h d")
      case (Inl e)
      from passStep.globFailed [OF Inl, of st a b rej] ts Globbing show ?thesis by blast
    next
      case (Inr fs)
      from passStep.globbed [OF Inr, of st "fst (startAll h st fs)" "snd (startAll h st fs)" a b rej]
        ts Globbing
      show ?thesis by auto
    qed
  next
    case (Settling d cs)
    show ?thesis
    proof (cases "\<forall>c \<in> set cs. snd (snd c) \<noteq> None")
      case True
      from passStep.allSettled [OF True, of h st a d b rej] ts Settling show ?thesis by blast
    next
      case False
      then obtain c where c: "c \<in> set cs" "snd (snd c) = None" by blast
      obtain f r x where "c = (f, r, x)" by (cases c)
      with c have "(f, r, None) \<in> set cs" by simp
      from split_list [OF this] obtain u v where cs: "cs = u @ (f, r, None) # v" by blast
      from passStep.loadSettled
        [of st f r "fst (settleOne st f r)" "snd (settleOne st f r)" h a d u v b rej]
        ts Settling cs
      show ?thesis by auto
    qed
  next
    case (Finished d)
    with n show ?thesis by simp
  qed
qed

lemma passStep_workLeft: "passStep h p p' \<Longrightarrow> workLeft h p' < workLeft h p"
proof (induction rule: passStep.induct)
  case (globFailed d e st ts ts' rej)
  then show ?case by (simp add: workLeft_def)
next
  case (globbed d fs st st1 ps ts ts' rej)
  from startAll_files [of h st fs] globbed(2) have "length ps = length fs"
    by (metis length_map snd_conv)
  with globbed(1) show ?case by (simp add: workLeft_def awaiting_def)
next
  case (loadSettled st f r st1 x ts d cs cs' ts' rej)
  show ?case by (simp add: workLeft_def)
next
  case (allSettled cs st ts d ts' rej)
  show ?case by (simp add: workLeft_def)
qed

text \<open>
  The function \<^verbatim>\<open>registerSchemas\<close> of the previous section is one of the schedules: its
  result is reached by steps from the start of the pass, with every task finished.
\<close>

lemma settleAll_Cons:
  "settleAll st ((f, r) # ps) =
     (fst (settleAll (fst (settleOne st f r)) ps),
      (case snd (settleOne st f r) of
         None \<Rightarrow> snd (settleAll (fst (settleOne st f r)) ps)
       | Some e \<Rightarrow> e # snd (settleAll (fst (settleOne st f r)) ps)))"
  by (simp add: split_def split: option.splits)

lemma rejected_settledCalls: "rejected (settledCalls st ps) = snd (settleAll st ps)"
proof (induction ps arbitrary: st)
  case Nil
  show ?case by simp
next
  case (Cons p ps)
  obtain f r where p: "p = (f, r)" by (cases p)
  show ?case
    unfolding p settleAll_Cons
    by (cases "snd (settleOne st f r)") (simp_all add: Cons.IH)
qed

lemma settledCalls_done: "\<forall>c \<in> set (settledCalls st ps). snd (snd c) \<noteq> None"
proof (induction ps arbitrary: st)
  case Nil
  show ?case by simp
next
  case (Cons p ps)
  obtain f r where p: "p = (f, r)" by (cases p)
  from Cons.IH show ?case unfolding p by simp
qed

lemma settle_run:
  "(passStep h)\<^sup>*\<^sup>* (st, ts @ Settling d (pre @ map awaiting ps) # ts', rej)
     (fst (settleAll st ps), ts @ Settling d (pre @ settledCalls st ps) # ts', rej)"
proof (induction ps arbitrary: st pre)
  case Nil
  show ?case by simp
next
  case (Cons p ps)
  obtain f r where p: "p = (f, r)" by (cases p)
  let ?st1 = "fst (settleOne st f r)"
  let ?x = "snd (settleOne st f r)"
  have e: "map awaiting ((f, r) # ps) = (f, r, None) # map awaiting ps"
    by (simp add: awaiting_def)
  have a: "passStep h (st, ts @ Settling d (pre @ (f, r, None) # map awaiting ps) # ts', rej)
          (?st1, ts @ Settling d (pre @ (f, r, Some ?x) # map awaiting ps) # ts', rej)"
    by (rule passStep.loadSettled) simp
  have "(passStep h)\<^sup>*\<^sup>*
      (?st1, ts @ Settling d ((pre @ [(f, r, Some ?x)]) @ map awaiting ps) # ts', rej)
      (fst (settleAll ?st1 ps),
       ts @ Settling d ((pre @ [(f, r, Some ?x)]) @ settledCalls ?st1 ps) # ts', rej)"
    by (rule Cons.IH)
  then have b: "(passStep h)\<^sup>*\<^sup>*
      (?st1, ts @ Settling d (pre @ (f, r, Some ?x) # map awaiting ps) # ts', rej)
      (fst (settleAll ?st1 ps),
       ts @ Settling d (pre @ (f, r, Some ?x) # settledCalls ?st1 ps) # ts', rej)"
    by simp
  from converse_rtranclp_into_rtranclp [of "passStep h", OF a b]
  show ?case unfolding p settleAll_Cons e by simp
qed

lemma scanDependency_run:
  "(passStep h)\<^sup>*\<^sup>* (st, ts @ Globbing d # ts', rej)
     (fst (scanDependency h st d), ts @ Finished d # ts',
      (case rej of None \<Rightarrow> snd (scanDependency h st d) | Some x \<Rightarrow> Some x))"
proof (cases "glob h d")
  case (Inl e)
  from passStep.globFailed [OF Inl, of st ts ts' rej]
  have "(passStep h)\<^sup>*\<^sup>* (st, ts @ Globbing d # ts', rej)
      (st, ts @ Finished d # ts', (case rej of None \<Rightarrow> Some e | Some x \<Rightarrow> Some x))"
    by (rule r_into_rtranclp)
  with Inl show ?thesis by (cases rej) (simp_all add: scanDependency_def)
next
  case (Inr fs)
  let ?st1 = "fst (startAll h st fs)"
  let ?ps = "snd (startAll h st fs)"
  let ?st2 = "fst (settleAll ?st1 ?ps)"
  have a: "passStep h (st, ts @ Globbing d # ts', rej)
             (?st1, ts @ Settling d (map awaiting ?ps) # ts', rej)"
    by (rule passStep.globbed [OF Inr]) simp
  have b: "(passStep h)\<^sup>*\<^sup>* (?st1, ts @ Settling d (map awaiting ?ps) # ts', rej)
             (?st2, ts @ Settling d (settledCalls ?st1 ?ps) # ts', rej)"
    using settle_run [of h ?st1 ts d "[]" ?ps ts' rej] by simp
  have c: "passStep h (?st2, ts @ Settling d (settledCalls ?st1 ?ps) # ts', rej)
             (logRejected ?st2 (rejected (settledCalls ?st1 ?ps)), ts @ Finished d # ts', rej)"
    by (rule passStep.allSettled) (rule settledCalls_done)
  have r: "(case rej of None \<Rightarrow> None | Some x \<Rightarrow> Some x) = rej" by (cases rej) simp_all
  from a b c have "(passStep h)\<^sup>*\<^sup>* (st, ts @ Globbing d # ts', rej)
      (logRejected ?st2 (rejected (settledCalls ?st1 ?ps)), ts @ Finished d # ts', rej)"
    by (meson converse_rtranclp_into_rtranclp rtranclp.rtrancl_into_rtrancl)
  then show ?thesis
    using Inr by (cases rej) (simp_all add: scanDependency_def split_def rejected_settledCalls)
qed

lemma scanAll_run:
  "(passStep h)\<^sup>*\<^sup>* (st, fin @ map Globbing ds, rej)
     (fst (scanAll h st ds), fin @ map Finished ds,
      (case rej of None \<Rightarrow> snd (scanAll h st ds) | Some x \<Rightarrow> Some x))"
proof (induction ds arbitrary: st fin rej)
  case Nil
  show ?case by (cases rej) simp_all
next
  case (Cons d ds)
  let ?st1 = "fst (scanDependency h st d)"
  let ?r1 = "snd (scanDependency h st d)"
  let ?rej1 = "case rej of None \<Rightarrow> ?r1 | Some x \<Rightarrow> Some x"
  have a: "(passStep h)\<^sup>*\<^sup>* (st, fin @ Globbing d # map Globbing ds, rej)
             (?st1, fin @ Finished d # map Globbing ds, ?rej1)"
    by (rule scanDependency_run)
  have b: "(passStep h)\<^sup>*\<^sup>* (?st1, (fin @ [Finished d]) @ map Globbing ds, ?rej1)
             (fst (scanAll h ?st1 ds), (fin @ [Finished d]) @ map Finished ds,
              (case ?rej1 of None \<Rightarrow> snd (scanAll h ?st1 ds) | Some x \<Rightarrow> Some x))"
    by (rule Cons.IH)
  have c: "(case ?rej1 of None \<Rightarrow> snd (scanAll h ?st1 ds) | Some x \<Rightarrow> Some x) =
           (case rej of None \<Rightarrow> snd (scanAll h st (d # ds)) | Some x \<Rightarrow> Some x)"
    by (cases rej; cases ?r1) (simp_all add: split_def)
  from a b have "(passStep h)\<^sup>*\<^sup>* (st, fin @ Globbing d # map Globbing ds, rej)
             (fst (scanAll h ?st1 ds), fin @ Finished d # map Finished ds,
              (case ?rej1 of None \<Rightarrow> snd (scanAll h ?st1 ds) | Some x \<Rightarrow> Some x))"
    by simp
  then show ?case unfolding c [symmetric] by (simp add: split_def)
qed

lemma registerSchemas_run:
  "(passStep h)\<^sup>*\<^sup>* (passStart h st)
     (fst (registerSchemas h st), map Finished (dependencies h), snd (registerSchemas h st))"
  using scanAll_run [of h "st\<lparr>schemas := Map.empty\<rparr>" "[]" "dependencies h" None]
  by (simp add: passStart_def registerSchemas_def)




subsection \<open>Deferred extensions across a discovery pass\<close>

text \<open>
  The reset of \<^verbatim>\<open>registerSchemas\<close> assigns \<^verbatim>\<open>this.schemas\<close> only. During the pass the ledger
  loses entries in \<^verbatim>\<open>createSchema\<close> alone, under the name a unit has before \<^verbatim>\<open>load\<close>.
\<close>

lemma start_kept:
  "ctorName h f \<noteq> n \<Longrightarrow> deferredKept n X st \<Longrightarrow>
   deferredKept n X (fst (registerSchema_start h st (JStr f) opts))"
  by (simp add: deferredKept_def pending_def start_ledger)

lemma resume_kept:
  "deferredKept n X st \<Longrightarrow> deferredKept n X (fst (registerSchema_resume st a noOptions u))"
  unfolding deferredKept_def
  by (auto simp: registerSchema_resume_def noOptions_def Let_def applyPending_def
      extendSchema_def log_def pending_def split: option.splits if_splits)

lemma logRejected_ledger [simp]: "schemaExtensions (logRejected st es) = schemaExtensions st"
  unfolding logRejected_def by (induction es arbitrary: st) (simp_all add: log_def)

lemma logRejected_kept:
  "deferredKept n X st \<Longrightarrow> deferredKept n X (logRejected st es)"
  by (simp add: deferredKept_def pending_def)

lemma startAll_kept:
  "\<forall>f \<in> set fs. ctorName h f \<noteq> n \<Longrightarrow> deferredKept n X st \<Longrightarrow>
   deferredKept n X (fst (startAll h st fs))"
proof (induction fs arbitrary: st)
  case Nil
  then show ?case by simp
next
  case (Cons f fs)
  from Cons.prems have "deferredKept n X (fst (registerSchema_start h st (JStr f) noOptions))"
    by (simp add: start_kept)
  with Cons.IH Cons.prems(1) show ?case by (simp add: split_def)
qed

lemma settleOne_kept:
  "deferredKept n X st \<Longrightarrow> deferredKept n X (fst (settleOne st f r))"
  by (cases r) (simp_all add: settleOne_def resume_kept)

lemma step_kept:
  assumes "passStep h p p'" and "passOK h p"
    and "\<forall>d \<in> set (dependencies h). \<forall>fs. glob h d = Inr fs \<longrightarrow> (\<forall>f \<in> set fs. ctorName h f \<noteq> n)"
    and "deferredKept n X (fst p)"
  shows "deferredKept n X (fst p')"
  using assms
proof (induction rule: passStep.induct)
  case (globFailed d e st ts ts' rej)
  then show ?case by simp
next
  case (globbed d fs st st1 ps ts ts' rej)
  from globbed(3) have "map root (ts @ Globbing d # ts') = dependencies h"
    by (simp add: passOK_iff)
  from root_in_dependencies [OF this] have "d \<in> set (dependencies h)" by simp
  with globbed(1,4) have "\<forall>f \<in> set fs. ctorName h f \<noteq> n" by simp
  from startAll_kept [OF this, of X st] globbed(2,5) show ?case by simp
next
  case (loadSettled st f r st1 x ts d cs cs' ts' rej)
  from settleOne_kept [of n X st f r] loadSettled(1,4) show ?case by simp
next
  case (allSettled cs st ts d ts' rej)
  then show ?case by (simp add: logRejected_kept)
qed

lemma run_kept:
  assumes "(passStep h)\<^sup>*\<^sup>* p p'" and "passOK h p"
    and "\<forall>d \<in> set (dependencies h). \<forall>fs. glob h d = Inr fs \<longrightarrow> (\<forall>f \<in> set fs. ctorName h f \<noteq> n)"
    and "deferredKept n X (fst p)"
  shows "deferredKept n X (fst p')"
  using assms(1)
proof (induction rule: rtranclp_induct)
  case base
  show ?case by (rule assms(4))
next
  case (step y z)
  from run_passOK [OF step(1) assms(2)] have "passOK h y" .
  from step_kept [OF step(2) this assms(3) step(3)] show ?case .
qed

text \<open>
  For an awaited name that no unit of the pass carries before \<^verbatim>\<open>load\<close>, under every
  schedule and at every moment of the pass: the names pending for it before the pass are
  still pending, and they are in the extension set of the schema of that name if the
  pass has registered it.
\<close>

lemma run_keeps_deferred:
  assumes "(passStep h)\<^sup>*\<^sup>* (passStart h st) (st', ts', rej)"
    and "\<forall>d \<in> set (dependencies h). \<forall>fs. glob h d = Inr fs \<longrightarrow> (\<forall>f \<in> set fs. ctorName h f \<noteq> n)"
  shows "set (pending st n) \<subseteq> set (pending st' n) \<and>
         (\<forall>v. schemas st' n = Some v \<longrightarrow> set (pending st n) \<subseteq> set (extensions v))"
proof -
  have "deferredKept n (set (pending st n)) (fst (passStart h st))"
    by (simp add: deferredKept_def pending_def passStart_def)
  from run_kept [OF assms(1) start_passOK assms(2) this]
  show ?thesis by (simp add: deferredKept_def)
qed

lemma registerSchemas_keeps_deferred:
  assumes "registerSchemas h st = (st', r)"
    and "\<forall>d \<in> set (dependencies h). \<forall>fs. glob h d = Inr fs \<longrightarrow> (\<forall>f \<in> set fs. ctorName h f \<noteq> n)"
  shows "set (pending st n) \<subseteq> set (pending st' n) \<and>
         (\<forall>v. schemas st' n = Some v \<longrightarrow> set (pending st n) \<subseteq> set (extensions v))"
  using run_keeps_deferred [OF registerSchemas_run assms(2), of st] assms(1) by simp

text \<open>
  Whatever name the constructor gives a unit: if the file then fails to load, the names
  that waited under that name are gone after the pass, and nothing has been registered.
\<close>

lemma discovery_drains_on_failed_load:
  "registerSchemas (brokenHost cn) (awaitingBroken cn) =
     (init\<lparr>logs := [(Warn, [Reason (LOAD_ERROR ''bad.json'')])]\<rparr>, None)"
  by (simp add: brokenHost_def awaitingBroken_def scan_defs eval_defs)

text \<open>
  C10, evaluated. \<^verbatim>\<open>page\<close> patches the schema named \<^verbatim>\<open>undefined\<close> and waits for it in the
  ledger. A discovery pass then finds \<^verbatim>\<open>course\<close> and \<^verbatim>\<open>undefined\<close>. The unit constructed
  first has no name yet, so \<^verbatim>\<open>createSchema\<close> reads the ledger under the key \<^verbatim>\<open>undefined\<close>:
  \<^verbatim>\<open>course\<close> receives \<^verbatim>\<open>page\<close>, the entry is deleted, and the schema \<^verbatim>\<open>undefined\<close> is
  registered without the extension that was waiting for it.
\<close>

theorem discovery_loses_deferred_extension:
  "schemaExtensions pageDeferred ''undefined'' = Some [''page''] \<and>
   snd (registerSchemas quirkHost pageDeferred) = None \<and>
   map_option extensions (schemas (fst (registerSchemas quirkHost pageDeferred)) ''undefined'') = Some [] \<and>
   map_option extensions (schemas (fst (registerSchemas quirkHost pageDeferred)) ''course'') = Some [''page''] \<and>
   schemaExtensions (fst (registerSchemas quirkHost pageDeferred)) ''undefined'' = None"
  by (simp add: pageDeferred_def quirkHost_def scan_defs eval_defs)

end
